theory Spec2Isabelle
  imports Main "HOL-Library.AList"
begin

section \<open>Data model of the cookbook (devdonalds.ts, lines 4-30)\<close>

text \<open>
  A \<open>requiredItem\<close> is the object \<open>{name, quantity}\<close>. A cookbook entry carries the
  tag \<open>type\<close>, which is either \<open>"ingredient"\<close> or \<open>"recipe"\<close>; the two shapes are the
  two constructors of \<open>cookbookEntry\<close>. JavaScript numbers are modelled as \<open>int\<close>
  (integer-valued requests); strings are \<open>string\<close>.

  Every JavaScript \<open>Map\<close> of the source is an association list in insertion order:
  \<open>get\<close> is \<open>map_of\<close>, \<open>has k\<close> is \<open>map_of m k \<noteq> None\<close>, \<open>set\<close> is \<open>AList.update\<close>
  (an existing key keeps its position, a new key goes to the end) and \<open>delete\<close> is
  \<open>AList.delete\<close>.
\<close>

datatype requiredItem = RequiredItem (name: string) (quantity: int)

datatype cookbookEntry =
    Ingredient string int
  | Recipe string "requiredItem list"

type_synonym cookbook = "(string \<times> cookbookEntry) list"

section \<open>Task 1: \<open>parse_handwriting\<close> (lines 48-56)\<close>

definition is_separator :: "char \<Rightarrow> bool" where
  "is_separator ch = (ch = CHR ''-'' \<or> ch = CHR ''_'' \<or> ch = CHR '' '')"

definition is_upper :: "char \<Rightarrow> bool" where
  "is_upper ch = (65 \<le> (of_char ch :: nat) \<and> (of_char ch :: nat) \<le> 90)"

definition is_lower :: "char \<Rightarrow> bool" where
  "is_lower ch = (97 \<le> (of_char ch :: nat) \<and> (of_char ch :: nat) \<le> 122)"

definition is_letter :: "char \<Rightarrow> bool" where
  "is_letter ch = (is_upper ch \<or> is_lower ch)"

definition is_digit :: "char \<Rightarrow> bool" where
  "is_digit ch = (48 \<le> (of_char ch :: nat) \<and> (of_char ch :: nat) \<le> 57)"

text \<open>The class \<open>\w\<close> of the regular expressions: letters, digits and the underscore.\<close>

definition is_word_char :: "char \<Rightarrow> bool" where
  "is_word_char ch = (is_letter ch \<or> is_digit ch \<or> ch = CHR ''_'')"

definition toLowerCase :: "char \<Rightarrow> char" where
  "toLowerCase ch = (if is_upper ch then char_of ((of_char ch :: nat) + 32) else ch)"

definition toUpperCase :: "char \<Rightarrow> char" where
  "toUpperCase ch = (if is_lower ch then char_of ((of_char ch :: nat) - 32) else ch)"

text \<open>\<open>replace(/[-_ ]+/g, " ")\<close>: every maximal run of separators becomes one space.\<close>

function collapse_separators :: "string \<Rightarrow> string" where
  "collapse_separators [] = []"
| "collapse_separators (ch # rest) =
     (if is_separator ch
      then CHR '' '' # collapse_separators (dropWhile is_separator rest)
      else ch # collapse_separators rest)"
  by pat_completeness auto
termination
  by (relation "measure length") (auto simp: less_Suc_eq_le length_dropWhile_le)

text \<open>\<open>replace(/[^a-zA-Z ]+/g, "").toLowerCase()\<close>.\<close>

definition keep_letters :: "string \<Rightarrow> string" where
  "keep_letters s = map toLowerCase (filter (\<lambda>ch. is_letter ch \<or> ch = CHR '' '') s)"

text \<open>
  \<open>trim()\<close>. It is only applied to a string of letters and spaces, where the white
  space it strips is the space character.
\<close>

definition trim :: "string \<Rightarrow> string" where
  "trim s = rev (dropWhile (\<lambda>ch. ch = CHR '' '') (rev (dropWhile (\<lambda>ch. ch = CHR '' '') s)))"

text \<open>
  \<open>replace(/\b[A-Za-z]/g, char => char.toUpperCase())\<close>: a letter is replaced when a
  word boundary precedes it, that is when it starts the string or follows a character
  outside \<open>\w\<close>. The flag says whether the previous character was outside \<open>\w\<close>.
\<close>

fun capitalise :: "bool \<Rightarrow> string \<Rightarrow> string" where
  "capitalise boundary [] = []"
| "capitalise boundary (ch # rest) =
     (if boundary \<and> is_letter ch then toUpperCase ch else ch)
       # capitalise (\<not> is_word_char ch) rest"

definition parse_handwriting :: "string \<Rightarrow> string option" where
  "parse_handwriting recipeName =
     (let result = collapse_separators recipeName;
          result = keep_letters result
      in if trim result \<noteq> [] then Some (capitalise True (trim result)) else None)"

section \<open>Reachability check \<open>isReachable\<close> (lines 139-166)\<close>

text \<open>
  Reading a property of \<open>undefined\<close> throws a \<open>TypeError\<close>; the handlers do not catch it.
\<close>

datatype fault = TypeError

text \<open>
  The \<open>for\<close> loop of lines 154-163 over the required items of the popped recipe.
  \<open>None\<close> is the early \<open>return true\<close>; otherwise the stack after the pushes is returned
  (the head of the list is the top of the stack).
\<close>

fun scan_required ::
  "cookbook \<Rightarrow> string \<Rightarrow> requiredItem list \<Rightarrow> cookbookEntry list \<Rightarrow> cookbookEntry list option"
where
  "scan_required cookbook dest [] stack = Some stack"
| "scan_required cookbook dest (requiredItem # rest) stack =
     (if name requiredItem = dest then None
      else (case map_of cookbook (name requiredItem) of
              Some (Recipe n items) \<Rightarrow> scan_required cookbook dest rest (Recipe n items # stack)
            | _ \<Rightarrow> scan_required cookbook dest rest stack))"

text \<open>
  The \<open>while\<close> loop of lines 150-164. It keeps no visited set, so it need not end: the
  result \<open>None\<close> of the option type is the run that never returns.
\<close>

partial_function (option) reach_loop ::
  "cookbook \<Rightarrow> string \<Rightarrow> cookbookEntry list \<Rightarrow> (fault + bool) option"
where
  "reach_loop cookbook dest stack =
     (case stack of
        [] \<Rightarrow> Some (Inr False)
      | currentItem # stack' \<Rightarrow>
          (case currentItem of
             Ingredient n t \<Rightarrow> Some (Inl TypeError)
           | Recipe n items \<Rightarrow>
               (case scan_required cookbook dest items stack' of
                  None \<Rightarrow> Some (Inr True)
                | Some stack'' \<Rightarrow> reach_loop cookbook dest stack'')))"

declare reach_loop.simps [code]

definition isReachable :: "cookbook \<Rightarrow> string \<Rightarrow> string \<Rightarrow> (fault + bool) option" where
  "isReachable cookbook src dest =
     (case map_of cookbook src of
        None \<Rightarrow> Some (Inl TypeError)
      | Some (Ingredient n t) \<Rightarrow> Some (Inr False)
      | Some (Recipe n items) \<Rightarrow> reach_loop cookbook dest [Recipe n items])"

section \<open>Task 2: the handler of \<open>POST /entry\<close> (lines 61-128)\<close>

text \<open>
  One constructor for each rejecting \<open>return\<close> of the handler, in source order
  (lines 73, 81, 92, 102, 108 and 112), named after the condition it tests. Line 73
  is also taken for an empty name. The message of line 108 speaks of an item that is
  not found, but its condition is the cycle check.
\<close>

datatype entry_error =
    DuplicateName
  | InvalidCookTime
  | EmptyRequiredItems
  | InvalidRequiredItem
  | CycleDetected
  | InvalidQuantity

datatype entry_response = Added | Rejected entry_error | Crashed fault

text \<open>
  The loop of lines 97-117. The cycle check of line 107 is only run when the required
  name is in the cookbook.
\<close>

fun check_items ::
  "cookbook \<Rightarrow> string \<Rightarrow> requiredItem list \<Rightarrow> (string \<times> requiredItem) list
     \<Rightarrow> (entry_response + (string \<times> requiredItem) list) option"
where
  "check_items cookbook entryName [] requiredItemsMap = Some (Inr requiredItemsMap)"
| "check_items cookbook entryName (requiredItem # rest) requiredItemsMap =
     (if name requiredItem = [] \<or> name requiredItem = entryName
      then Some (Inl (Rejected InvalidRequiredItem))
      else
        (case (if map_of cookbook (name requiredItem) \<noteq> None
               then isReachable cookbook (name requiredItem) entryName
               else Some (Inr False)) of
           None \<Rightarrow> None
         | Some (Inl f) \<Rightarrow> Some (Inl (Crashed f))
         | Some (Inr True) \<Rightarrow> Some (Inl (Rejected CycleDetected))
         | Some (Inr False) \<Rightarrow>
             (if quantity requiredItem \<le> 0 then Some (Inl (Rejected InvalidQuantity))
              else check_items cookbook entryName rest
                     (AList.update (name requiredItem)
                        (RequiredItem (name requiredItem) (quantity requiredItem))
                        requiredItemsMap))))"

text \<open>
  The handler takes the cookbook and the request body and returns the response with
  the cookbook after the request. The request body is an entry whose \<open>type\<close> field
  has already selected the constructor: a body with another \<open>type\<close> is rejected by
  line 67 before anything else is read. The \<open>typeof\<close> tests hold by the types of the
  fields. An error that \<open>isReachable\<close> throws is not caught and ends the request
  without a write; it is the response \<open>Crashed\<close>.
\<close>

fun AddEntry :: "cookbook \<Rightarrow> cookbookEntry \<Rightarrow> (entry_response \<times> cookbook) option" where
  "AddEntry cookbook (Ingredient entryName cookTime) =
     (if entryName = [] \<or> map_of cookbook entryName \<noteq> None
      then Some (Rejected DuplicateName, cookbook)
      else if cookTime < 0 then Some (Rejected InvalidCookTime, cookbook)
      else Some (Added, AList.update entryName (Ingredient entryName cookTime) cookbook))"
| "AddEntry cookbook (Recipe entryName requiredItems) =
     (if entryName = [] \<or> map_of cookbook entryName \<noteq> None
      then Some (Rejected DuplicateName, cookbook)
      else if requiredItems = [] then Some (Rejected EmptyRequiredItems, cookbook)
      else
        (case check_items cookbook entryName requiredItems [] of
           None \<Rightarrow> None
         | Some (Inl response) \<Rightarrow> Some (response, cookbook)
         | Some (Inr requiredItemsMap) \<Rightarrow>
             Some (Added,
                   AList.update entryName (Recipe entryName (map snd requiredItemsMap))
                     cookbook)))"

section \<open>Task 3: the handler of \<open>GET /summary\<close> (lines 170-242)\<close>

text \<open>
  The rejecting \<open>return\<close>s of the handler: line 174, line 180, and lines 194 and 208
  for a name that is not in the cookbook.
\<close>

datatype summary_error = NotFound | NotARecipe | DanglingReference

text \<open>The body \<open>{name, cookTime, ingredients}\<close> of the successful response.\<close>

datatype summary = Summary string int "(string \<times> int) list"

text \<open>\<open>ingredients.get(k) || d\<close>: the default also replaces a stored \<open>0\<close>.\<close>

definition get_or :: "(string \<times> int) list \<Rightarrow> string \<Rightarrow> int \<Rightarrow> int" where
  "get_or ingredients k d =
     (case map_of ingredients k of None \<Rightarrow> d | Some v \<Rightarrow> if v = 0 then d else v)"

text \<open>
  The \<open>for\<close> loop of lines 203-217 over the required items of the popped recipe;
  \<open>None\<close> is the rejecting \<open>return\<close> of line 208. The head of \<open>recipes\<close> is the top of
  the stack.
\<close>

fun expand_items ::
  "cookbook \<Rightarrow> string \<Rightarrow> requiredItem list \<Rightarrow> string list \<Rightarrow> (string \<times> int) list
     \<Rightarrow> (string list \<times> (string \<times> int) list) option"
where
  "expand_items cookbook recipeName [] recipes ingredients = Some (recipes, ingredients)"
| "expand_items cookbook recipeName (requiredItem # rest) recipes ingredients =
     (if map_of cookbook (name requiredItem) = None then None
      else expand_items cookbook recipeName rest (name requiredItem # recipes)
             (AList.update (name requiredItem)
                (get_or ingredients (name requiredItem) 0
                   + quantity requiredItem * get_or ingredients recipeName 1)
                ingredients))"

text \<open>The \<open>while\<close> loop of lines 189-221; \<open>None\<close> is the run that never returns.\<close>

partial_function (option) summary_loop ::
  "cookbook \<Rightarrow> string list \<Rightarrow> (string \<times> int) list
     \<Rightarrow> (summary_error + (string \<times> int) list) option"
where
  "summary_loop cookbook recipes ingredients =
     (case recipes of
        [] \<Rightarrow> Some (Inr ingredients)
      | recipeName # recipes' \<Rightarrow>
          (case map_of cookbook recipeName of
             None \<Rightarrow> Some (Inl DanglingReference)
           | Some (Ingredient n t) \<Rightarrow> summary_loop cookbook recipes' ingredients
           | Some (Recipe n items) \<Rightarrow>
               (case expand_items cookbook recipeName items recipes' ingredients of
                  None \<Rightarrow> Some (Inl DanglingReference)
                | Some (recipes'', ingredients') \<Rightarrow>
                    summary_loop cookbook recipes'' (AList.delete recipeName ingredients'))))"

declare summary_loop.simps [code]

text \<open>The loop of lines 227-233: the cook time and the list of the summary.\<close>

fun prepare_summary ::
  "cookbook \<Rightarrow> (string \<times> int) list \<Rightarrow> int \<Rightarrow> (string \<times> int) list
     \<Rightarrow> int \<times> (string \<times> int) list"
where
  "prepare_summary cookbook [] cookTime summaryIngredients = (cookTime, summaryIngredients)"
| "prepare_summary cookbook ((ingredientName, ingredientQuantity) # rest) cookTime
       summaryIngredients =
     (case map_of cookbook ingredientName of
        Some (Ingredient n t) \<Rightarrow>
          prepare_summary cookbook rest (cookTime + ingredientQuantity * t)
            (summaryIngredients @ [(ingredientName, ingredientQuantity)])
      | _ \<Rightarrow> prepare_summary cookbook rest cookTime summaryIngredients)"

definition Summarize ::
  "cookbook \<Rightarrow> string \<Rightarrow> ((summary_error + summary) \<times> cookbook) option"
where
  "Summarize cookbook n =
     (if n = [] \<or> map_of cookbook n = None then Some (Inl NotFound, cookbook)
      else
        (case map_of cookbook n of
           Some (Recipe n' items) \<Rightarrow>
             (case summary_loop cookbook [n] (AList.update n 1 []) of
                None \<Rightarrow> None
              | Some (Inl e) \<Rightarrow> Some (Inl e, cookbook)
              | Some (Inr ingredients) \<Rightarrow>
                  (case prepare_summary cookbook ingredients 0 [] of
                     (cookTime, summaryIngredients) \<Rightarrow>
                       Some (Inr (Summary n cookTime summaryIngredients), cookbook)))
         | _ \<Rightarrow> Some (Inl NotARecipe, cookbook)))"

section \<open>The requirement graph and the states of the cookbook\<close>

text \<open>
  The requirement graph of a cookbook has an edge from the name of every recipe in the
  cookbook to each name that the recipe requires, whether that name is in the cookbook
  or not.
\<close>

definition edges :: "cookbook \<Rightarrow> (string \<times> string) set" where
  "edges cookbook =
     {(a, b). \<exists>n items. map_of cookbook a = Some (Recipe n items) \<and> b \<in> name ` set items}"

text \<open>
  The cookbook starts empty (line 30) and is only written by the handler of
  \<open>POST /entry\<close>: the states of the cookbook are those reached from the empty one by
  a sequence of requests, whatever their responses.
\<close>

inductive reachable :: "cookbook \<Rightarrow> bool" where
  initial: "reachable []"
| request: "reachable c \<Longrightarrow> AddEntry c e = Some (response, c') \<Longrightarrow> reachable c'"

fun entry_name :: "cookbookEntry \<Rightarrow> string" where
  "entry_name (Ingredient n t) = n"
| "entry_name (Recipe n items) = n"

fun is_recipe :: "cookbookEntry \<Rightarrow> bool" where
  "is_recipe (Recipe n items) = True"
| "is_recipe (Ingredient n t) = False"

fun requiredItems :: "cookbookEntry \<Rightarrow> requiredItem list" where
  "requiredItems (Recipe n items) = items"
| "requiredItems (Ingredient n t) = []"

text \<open>
  A well-formed entry is one that passes the field checks of the handler, lines 72,
  80, 91, 101 and 111: every name in it is a non-empty string, the cook time of an
  ingredient is not negative, and a recipe has a non-empty list of required items with
  positive quantities, none of which names the recipe itself. Such an entry is only
  rejected for a name already in the cookbook or by the cycle check.
\<close>

fun well_formed :: "cookbookEntry \<Rightarrow> bool" where
  "well_formed (Ingredient n t) = (n \<noteq> [] \<and> 0 \<le> t)"
| "well_formed (Recipe n items) =
     (n \<noteq> [] \<and> items \<noteq> [] \<and>
      (\<forall>ri \<in> set items. name ri \<noteq> [] \<and> name ri \<noteq> n \<and> 0 < quantity ri))"

text \<open>
  Some required name is in the cookbook and \<open>isReachable\<close> finds the new name from it.
\<close>

definition closes_cycle :: "cookbook \<Rightarrow> string \<Rightarrow> requiredItem list \<Rightarrow> bool" where
  "closes_cycle c n items =
     (\<exists>ri \<in> set items. map_of c (name ri) \<noteq> None \<and> isReachable c (name ri) n = Some (Inr True))"

text \<open>
  The list \<open>Array.from(requiredItemsMap.values())\<close> of line 123 once the loop of lines
  97-117 has stored every item of the request.
\<close>

definition stored :: "requiredItem list \<Rightarrow> requiredItem list" where
  "stored items = map snd (fold (\<lambda>ri. AList.update (name ri) ri) items [])"

text \<open>
  The accumulated quantity in the words of the specification, for comparison with the
  handler: the quantities are multiplied along every chain of requirements from the
  recipe \<open>r\<close> to the name \<open>l\<close> and the products of the chains are added. The first
  argument bounds the length of the chains that are counted.
\<close>

fun spec_quantity :: "nat \<Rightarrow> cookbook \<Rightarrow> string \<Rightarrow> string \<Rightarrow> int" where
  "spec_quantity 0 c r l = 0"
| "spec_quantity (Suc d) c r l =
     (case map_of c r of
        Some (Recipe n items) \<Rightarrow>
          (\<Sum>ri\<leftarrow>items. quantity ri * ((if name ri = l then 1 else 0) + spec_quantity d c (name ri) l))
      | _ \<Rightarrow> 0)"

subsection \<open>Notions used in the proofs\<close>

text \<open>The loop of \<open>isReachable\<close> returns a boolean from the given stack.\<close>

definition returns :: "cookbook \<Rightarrow> string \<Rightarrow> cookbookEntry list \<Rightarrow> bool" where
  "returns c dest stack = (\<exists>b. reach_loop c dest stack = Some (Inr b))"

text \<open>
  A list of required items leads to \<open>dest\<close> when one of them is \<open>dest\<close> or is a recipe
  of the cookbook whose items lead to \<open>dest\<close>.
\<close>

inductive leads_to :: "cookbook \<Rightarrow> string \<Rightarrow> requiredItem list \<Rightarrow> bool" for c dest where
  direct: "ri \<in> set items \<Longrightarrow> name ri = dest \<Longrightarrow> leads_to c dest items"
| via: "ri \<in> set items \<Longrightarrow> map_of c (name ri) = Some (Recipe n' items') \<Longrightarrow>
        leads_to c dest items' \<Longrightarrow> leads_to c dest items"

text \<open>The loop of the summary returns from the given stack, whatever the counters.\<close>

definition finishes :: "cookbook \<Rightarrow> string list \<Rightarrow> bool" where
  "finishes c recipes = (\<forall>ings. \<exists>r. summary_loop c recipes ings = Some r)"

text \<open>Every name that can be reached from \<open>k\<close> in the graph is in the cookbook.\<close>

definition all_present :: "cookbook \<Rightarrow> string \<Rightarrow> bool" where
  "all_present c k = (\<forall>k'. (k, k') \<in> (edges c)\<^sup>* \<longrightarrow> map_of c k' \<noteq> None)"

subsection \<open>Example cookbooks\<close>

text \<open>
  A diamond entered with forward references: \<open>R\<close> first, then \<open>A\<close> and \<open>B\<close>, and the
  ingredient \<open>L\<close> last.
\<close>

definition pending_cookbook :: cookbook where
  "pending_cookbook =
     [(''R'', Recipe ''R'' [RequiredItem ''A'' 2, RequiredItem ''B'' 3]),
      (''A'', Recipe ''A'' [RequiredItem ''L'' 1]),
      (''B'', Recipe ''B'' [RequiredItem ''L'' 1])]"

definition diamond_cookbook :: cookbook where
  "diamond_cookbook = pending_cookbook @ [(''L'', Ingredient ''L'' 4)]"

text \<open>A recipe \<open>C\<close> that \<open>R\<close> requires both directly and through \<open>A\<close>.\<close>

definition overcount_cookbook :: cookbook where
  "overcount_cookbook =
     [(''L'', Ingredient ''L'' 1),
      (''C'', Recipe ''C'' [RequiredItem ''L'' 1]),
      (''A'', Recipe ''A'' [RequiredItem ''C'' 1]),
      (''R'', Recipe ''R'' [RequiredItem ''C'' 1, RequiredItem ''A'' 1])]"

text \<open>A cookbook in which \<open>R\<close> requires, through \<open>A\<close>, the name \<open>Z\<close> that was never added.\<close>

definition dangling_cookbook :: cookbook where
  "dangling_cookbook =
     [(''L'', Ingredient ''L'' 2),
      (''A'', Recipe ''A'' [RequiredItem ''L'' 1, RequiredItem ''Z'' 1]),
      (''R'', Recipe ''R'' [RequiredItem ''A'' 2])]"

section \<open>Lemmas\<close>

subsection \<open>\<open>parse_handwriting\<close> returns nothing exactly when the input has no letter\<close>

lemma is_separator_not_letter: "is_separator ch \<Longrightarrow> \<not> is_letter ch"
  by (auto simp: is_separator_def is_letter_def is_upper_def is_lower_def)

lemma letters_dropWhile:
  "filter is_letter (dropWhile is_separator s) = filter is_letter s"
  by (induction s) (simp_all add: is_separator_not_letter)

lemma letters_collapse_separators:
  "filter is_letter (collapse_separators s) = filter is_letter s"
proof (induction s rule: collapse_separators.induct)
  case 1
  show ?case by simp
next
  case (2 ch rest)
  show ?case
  proof (cases "is_separator ch")
    case True
    have "is_separator (CHR '' '')" by (simp add: is_separator_def)
    then have "\<not> is_letter (CHR '' '')" by (rule is_separator_not_letter)
    with True 2(1) [OF True] is_separator_not_letter [OF True] show ?thesis
      by (simp add: letters_dropWhile)
  next
    case False
    with 2(2) [OF False] show ?thesis by simp
  qed
qed

lemma all_dropWhile: "(\<forall>x \<in> set (dropWhile P s). P x) \<longleftrightarrow> (\<forall>x \<in> set s. P x)"
  by (induction s) auto

lemma trim_Nil_iff: "trim s = [] \<longleftrightarrow> (\<forall>ch \<in> set s. ch = CHR '' '')"
  by (simp add: trim_def dropWhile_eq_Nil_conv all_dropWhile)

lemma toLowerCase_space: "toLowerCase ch = CHR '' '' \<longleftrightarrow> ch = CHR '' ''"
proof (cases "is_upper ch")
  case False
  then show ?thesis by (simp add: toLowerCase_def)
next
  case True
  then have "ch \<noteq> CHR '' ''" by (auto simp: is_upper_def)
  moreover have "char_of (of_char ch + 32 :: nat) \<noteq> CHR '' ''"
  proof
    assume "char_of (of_char ch + 32 :: nat) = CHR '' ''"
    then have "(of_char (char_of (of_char ch + 32 :: nat)) :: nat) = of_char (CHR '' '')" by simp
    then have "((of_char ch :: nat) + 32) mod 256 = 32" by simp
    with True show False by (simp add: is_upper_def)
  qed
  ultimately show ?thesis using True by (simp add: toLowerCase_def)
qed

lemma parse_handwriting_None_iff:
  "parse_handwriting s = None \<longleftrightarrow> (\<forall>ch \<in> set s. \<not> is_letter ch)"
proof -
  have sp: "\<not> is_letter (CHR '' '')"
    by (rule is_separator_not_letter) (simp add: is_separator_def)
  have "parse_handwriting s = None \<longleftrightarrow> trim (keep_letters (collapse_separators s)) = []"
    by (simp add: parse_handwriting_def Let_def)
  also have "\<dots> \<longleftrightarrow> (\<forall>ch \<in> set (collapse_separators s). \<not> is_letter ch)"
    using sp by (auto simp: trim_Nil_iff keep_letters_def toLowerCase_space)
  also have "\<dots> \<longleftrightarrow> filter is_letter (collapse_separators s) = []"
    by (simp add: filter_empty_conv)
  also have "\<dots> \<longleftrightarrow> (\<forall>ch \<in> set s. \<not> is_letter ch)"
    by (simp add: letters_collapse_separators filter_empty_conv)
  finally show ?thesis .
qed

subsection \<open>The graph of a cookbook is finite\<close>

lemma edges_subset:
  "edges c \<subseteq> fst ` set c \<times> (\<Union>e \<in> snd ` set c. name ` set (requiredItems e))"
proof
  fix p assume "p \<in> edges c"
  then obtain a b n items where p: "p = (a, b)" and m: "map_of c a = Some (Recipe n items)"
    and b: "b \<in> name ` set items"
    by (auto simp: edges_def)
  from m have "(a, Recipe n items) \<in> set c" by (rule map_of_SomeD)
  then have "a \<in> fst ` set c" and "Recipe n items \<in> snd ` set c" by force+
  with b p show "p \<in> fst ` set c \<times> (\<Union>e \<in> snd ` set c. name ` set (requiredItems e))"
    by force
qed

lemma finite_edges: "finite (edges c)"
  by (rule finite_subset [OF edges_subset]) auto

lemma wf_edges: "acyclic (edges c) \<Longrightarrow> wf ((edges c)\<inverse>)"
  by (rule finite_acyclic_wf_converse [OF finite_edges])

subsection \<open>\<open>isReachable\<close> returns on an acyclic graph\<close>

text \<open>
  Popping a recipe replaces it by recipes that it requires. On a well-founded graph
  the loop therefore returns from a stack with one more recipe on top whenever it
  returns from the stack below, by induction on the key of that recipe.
\<close>

lemma scan_required_Some:
  "scan_required c dest items stack = Some stack' \<Longrightarrow>
   \<exists>pushed. stack' = pushed @ stack \<and>
     (\<forall>e \<in> set pushed. \<exists>ri \<in> set items. \<exists>n its. e = Recipe n its \<and> map_of c (name ri) = Some e)"
proof (induction items arbitrary: stack)
  case Nil
  then show ?case by simp
next
  case (Cons ri items)
  from Cons.prems have ne: "name ri \<noteq> dest" by (auto split: if_splits)
  show ?case
  proof (cases "\<exists>n its. map_of c (name ri) = Some (Recipe n its)")
    case True
    then obtain n its where m: "map_of c (name ri) = Some (Recipe n its)" by blast
    with Cons.prems ne have "scan_required c dest items (Recipe n its # stack) = Some stack'"
      by simp
    from Cons.IH [OF this] obtain pushed where
      p: "stack' = pushed @ Recipe n its # stack"
         "\<forall>e \<in> set pushed. \<exists>ri \<in> set items. \<exists>n its. e = Recipe n its \<and> map_of c (name ri) = Some e"
      by blast
    have "stack' = (pushed @ [Recipe n its]) @ stack" using p(1) by simp
    moreover have "\<forall>e \<in> set (pushed @ [Recipe n its]). \<exists>r \<in> set (ri # items). \<exists>n its. e = Recipe n its \<and> map_of c (name r) = Some e"
      using p(2) m by auto
    ultimately show ?thesis by blast
  next
    case False
    with Cons.prems ne have "scan_required c dest items stack = Some stack'"
      by (auto split: option.splits cookbookEntry.splits)
    from Cons.IH [OF this] show ?thesis by auto
  qed
qed

lemma scan_required_None:
  "scan_required c dest items stack = None \<longleftrightarrow> dest \<in> name ` set items"
  by (induction items arbitrary: stack) (auto split: option.splits cookbookEntry.splits)

lemma returns_Nil: "returns c dest []"
  by (auto simp add: returns_def reach_loop.simps)

lemma returns_push:
  assumes wf: "wf ((edges c)\<inverse>)"
  shows "map_of c k = Some (Recipe n items) \<Longrightarrow> returns c dest rest
           \<Longrightarrow> returns c dest (Recipe n items # rest)"
  using wf
proof (induction k arbitrary: n items rest rule: wf_induct_rule)
  case (less k)
  show ?case
  proof (cases "scan_required c dest items rest")
    case None
    then show ?thesis by (auto simp add: returns_def reach_loop.simps)
  next
    case (Some stack')
    from scan_required_Some [OF Some] obtain pushed where
      st: "stack' = pushed @ rest" and
      pu: "\<forall>e \<in> set pushed. \<exists>ri \<in> set items. \<exists>n its. e = Recipe n its \<and> map_of c (name ri) = Some e"
      by blast
    from pu have "returns c dest (pushed @ rest)"
    proof (induction pushed)
      case Nil
      then show ?case using less.prems(2) by simp
    next
      case (Cons e pushed)
      then obtain ri n' its where ri: "ri \<in> set items" and e: "e = Recipe n' its"
        and m: "map_of c (name ri) = Some (Recipe n' its)"
        by auto
      have "(name ri, k) \<in> (edges c)\<inverse>"
        using ri less.prems(1) by (auto simp: edges_def)
      from less.IH [OF this m] Cons show ?case using e by simp
    qed
    with st Some show ?thesis by (simp add: returns_def reach_loop.simps [of c dest "Recipe n items # rest"])
  qed
qed

lemma isReachable_returns:
  assumes "acyclic (edges c)" and "map_of c src \<noteq> None"
  shows "\<exists>b. isReachable c src dest = Some (Inr b)"
proof (cases "map_of c src")
  case None
  with assms show ?thesis by simp
next
  case (Some e)
  show ?thesis
  proof (cases e)
    case (Ingredient n t)
    with Some show ?thesis by (auto simp add: isReachable_def)
  next
    case (Recipe n items)
    with Some have "returns c dest [Recipe n items]"
      using returns_push [OF wf_edges [OF assms(1)] _ returns_Nil] by blast
    with Some Recipe show ?thesis by (simp add: isReachable_def returns_def)
  qed
qed

subsection \<open>The loop of \<open>isReachable\<close> does not fault on a stack of recipes\<close>

lemma reach_loop_no_fault:
  assumes "reach_loop c dest stack = Some r"
  shows "(\<forall>e \<in> set stack. is_recipe e) \<longrightarrow> (\<exists>b. r = Inr b)"
proof (rule reach_loop.raw_induct
    [where P = "\<lambda>c dest stack r. (\<forall>e \<in> set stack. is_recipe e) \<longrightarrow> (\<exists>b. r = Inr b)",
      OF _ assms], goal_cases)
  case (1 reach_loop' c dest stack r)
  show ?case
  proof
    assume rec: "\<forall>e \<in> set stack. is_recipe e"
    show "\<exists>b. r = Inr b"
    proof (cases stack)
      case Nil
      with 1(2) show ?thesis by auto
    next
      case (Cons e rest)
      with rec obtain n items where e: "e = Recipe n items" by (cases e) auto
      show ?thesis
      proof (cases "scan_required c dest items rest")
        case None
        with 1(2) Cons e show ?thesis by auto
      next
        case (Some stack')
        with 1(2) Cons e have rl: "reach_loop' c dest stack' = Some r" by simp
        from scan_required_Some [OF Some] obtain pushed where
          "stack' = pushed @ rest" "\<forall>e \<in> set pushed. is_recipe e"
          by fastforce
        with rec Cons have "\<forall>e \<in> set stack'. is_recipe e"
          by auto
        with 1(1) [OF rl] show ?thesis by blast
      qed
    qed
  qed
qed

subsection \<open>The answer \<open>false\<close> excludes a path\<close>

lemma scan_required_keeps:
  "scan_required c dest items stack = Some stack' \<Longrightarrow>
     set stack \<subseteq> set stack' \<and>
     (\<forall>ri \<in> set items. \<forall>n its. map_of c (name ri) = Some (Recipe n its) \<longrightarrow> Recipe n its \<in> set stack')"
proof (induction items arbitrary: stack)
  case Nil
  then show ?case by simp
next
  case (Cons ri items)
  from Cons.prems have ne: "name ri \<noteq> dest" by (auto split: if_splits)
  show ?case
  proof (cases "\<exists>n its. map_of c (name ri) = Some (Recipe n its)")
    case True
    then obtain n its where m: "map_of c (name ri) = Some (Recipe n its)" by blast
    with Cons.prems ne have "scan_required c dest items (Recipe n its # stack) = Some stack'"
      by simp
    from Cons.IH [OF this] m show ?thesis by auto
  next
    case False
    with Cons.prems ne have "scan_required c dest items stack = Some stack'"
      by (auto split: option.splits cookbookEntry.splits)
    from Cons.IH [OF this] False show ?thesis by auto
  qed
qed

lemma reach_loop_False_complete:
  assumes "reach_loop c dest stack = Some r"
  shows "r = Inr False \<longrightarrow> (\<forall>n items. Recipe n items \<in> set stack \<longrightarrow> \<not> leads_to c dest items)"
proof (rule reach_loop.raw_induct
    [where P = "\<lambda>c dest stack r. r = Inr False \<longrightarrow>
       (\<forall>n items. Recipe n items \<in> set stack \<longrightarrow> \<not> leads_to c dest items)",
      OF _ assms], goal_cases)
  case (1 reach_loop' c dest stack r)
  show ?case
  proof (intro impI allI)
    fix n items
    assume r: "r = Inr False" and mem: "Recipe n items \<in> set stack"
    from mem obtain e rest where Cons: "stack = e # rest" by (cases stack) auto
    show "\<not> leads_to c dest items"
    proof (cases e)
      case (Ingredient n' t)
      with 1(2) r Cons show ?thesis by simp
    next
      case (Recipe n' items')
      show ?thesis
      proof (cases "scan_required c dest items' rest")
        case None
        with 1(2) r Cons Recipe show ?thesis by simp
      next
        case (Some stack')
        with 1(2) Cons Recipe have rl: "reach_loop' c dest stack' = Some r" by simp
        from 1(1) [OF rl] r have
          IH: "\<And>n items. Recipe n items \<in> set stack' \<Longrightarrow> \<not> leads_to c dest items"
          by blast
        from scan_required_keeps [OF Some] have
          keep: "set rest \<subseteq> set stack'" and
          ch: "\<forall>ri \<in> set items'. \<forall>n its. map_of c (name ri) = Some (Recipe n its) \<longrightarrow> Recipe n its \<in> set stack'"
          by blast+
        have nd: "dest \<notin> name ` set items'"
          using Some scan_required_None [of c dest items' rest] by simp
        have top: "\<not> leads_to c dest items'"
        proof
          assume "leads_to c dest items'"
          then show False
          proof cases
            case (direct ri)
            with nd show False by auto
          next
            case (via ri n'' items'')
            with ch have "Recipe n'' items'' \<in> set stack'" by blast
            from IH [OF this] via show False by simp
          qed
        qed
        from mem Cons Recipe have "Recipe n items = Recipe n' items' \<or> Recipe n items \<in> set rest"
          by auto
        then show ?thesis
        proof
          assume "Recipe n items = Recipe n' items'"
          with top show ?thesis by simp
        next
          assume "Recipe n items \<in> set rest"
          with keep have "Recipe n items \<in> set stack'" by blast
          from IH [OF this] show ?thesis .
        qed
      qed
    qed
  qed
qed

lemma path_leads_to:
  "(a, b) \<in> (edges c)\<^sup>+ \<Longrightarrow> map_of c a = Some (Recipe n items) \<Longrightarrow> leads_to c b items"
proof (induction arbitrary: n items rule: converse_trancl_induct)
  case (base y)
  then show ?case by (auto simp: edges_def intro: leads_to.direct)
next
  case (step y z)
  from step(1,4) obtain ri where ri: "ri \<in> set items" "name ri = z"
    by (auto simp: edges_def)
  from step(2) obtain w where "(z, w) \<in> edges c" by (meson tranclD)
  then obtain n' items' where z: "map_of c z = Some (Recipe n' items')"
    by (auto simp: edges_def)
  from step(3) [OF z] ri z show ?case by (auto intro: leads_to.via)
qed

lemma isReachable_False_no_path:
  assumes "isReachable c k dest = Some (Inr False)"
  shows "(k, dest) \<notin> (edges c)\<^sup>+"
proof
  assume p: "(k, dest) \<in> (edges c)\<^sup>+"
  then obtain w where "(k, w) \<in> edges c" by (meson tranclD)
  then obtain n items where k: "map_of c k = Some (Recipe n items)"
    by (auto simp: edges_def)
  with assms have "reach_loop c dest [Recipe n items] = Some (Inr False)"
    by (simp add: isReachable_def)
  from reach_loop_False_complete [OF this] path_leads_to [OF p k]
  show False by simp
qed

subsection \<open>Requests keep the graph acyclic\<close>

lemma check_items_Inr:
  "check_items c n items m = Some (Inr m') \<Longrightarrow>
     m' = fold (\<lambda>ri. AList.update (name ri) ri) items m \<and>
     (\<forall>ri \<in> set items. name ri \<noteq> [] \<and> name ri \<noteq> n \<and> 0 < quantity ri \<and>
        (map_of c (name ri) \<noteq> None \<longrightarrow> isReachable c (name ri) n = Some (Inr False)))"
proof (induction items arbitrary: m)
  case Nil
  then show ?case by simp
next
  case (Cons ri items)
  from Cons.prems have
    a: "name ri \<noteq> []" "name ri \<noteq> n" and
    b: "map_of c (name ri) \<noteq> None \<longrightarrow> isReachable c (name ri) n = Some (Inr False)" and
    q: "0 < quantity ri" and
    rest: "check_items c n items (AList.update (name ri) ri m) = Some (Inr m')"
    by (auto split: if_splits option.splits sum.splits bool.splits)
  from Cons.IH [OF rest] a b q show ?case by simp
qed

lemma dom_fold_update:
  "fst ` set (fold (\<lambda>ri. AList.update (name ri) ri) items m) = fst ` set m \<union> name ` set items"
proof (induction items arbitrary: m)
  case Nil
  then show ?case by simp
next
  case (Cons ri items)
  have "fst ` set (AList.update (name ri) ri m) = insert (name ri) (fst ` set m)"
    using AList.dom_update [of "name ri" ri m] by (simp add: dom_map_of_conv_image_fst)
  with Cons.IH [of "AList.update (name ri) ri m"] show ?case by auto
qed

lemma keyed_update:
  "\<forall>p \<in> set m. name (snd p) = fst p \<Longrightarrow>
     \<forall>p \<in> set (AList.update (name ri) ri m). name (snd p) = fst p"
  by (induction m) auto

lemma keyed_fold_update:
  "\<forall>p \<in> set m. name (snd p) = fst p \<Longrightarrow>
     \<forall>p \<in> set (fold (\<lambda>ri. AList.update (name ri) ri) items m). name (snd p) = fst p"
proof (induction items arbitrary: m)
  case Nil
  then show ?case by simp
next
  case (Cons ri items)
  from Cons.IH [OF keyed_update [OF Cons.prems, of ri]] show ?case by simp
qed

lemma stored_names:
  "name ` set (map snd (fold (\<lambda>ri. AList.update (name ri) ri) items [])) = name ` set items"
proof -
  let ?m = "fold (\<lambda>ri. AList.update (name ri) ri) items []"
  have k: "\<forall>p \<in> set ?m. name (snd p) = fst p"
    by (rule keyed_fold_update) simp
  have "name ` set (map snd ?m) = (\<lambda>p. name (snd p)) ` set ?m" by (simp add: image_image)
  also have "\<dots> = fst ` set ?m" using k by (intro image_cong) auto
  also have "\<dots> = name ` set items" using dom_fold_update [of items "[]"] by simp
  finally show ?thesis .
qed

lemma edges_add_recipe:
  assumes "map_of c n = None"
  shows "edges (AList.update n (Recipe n items) c) = edges c \<union> {n} \<times> name ` set items"
  using assms by (auto simp: edges_def update_conv' split: if_splits)

lemma edges_add_ingredient:
  assumes "map_of c n = None"
  shows "edges (AList.update n (Ingredient n t) c) = edges c"
  using assms by (auto simp: edges_def update_conv' split: if_splits)

lemma rtrancl_into_new_source:
  "(a, n) \<in> (r \<union> {n} \<times> K)\<^sup>* \<Longrightarrow> (a, n) \<in> r\<^sup>*"
proof (induction rule: converse_rtrancl_induct)
  case base
  show ?case by simp
next
  case (step y z)
  then show ?case by (auto intro: converse_rtrancl_into_rtrancl)
qed

lemma acyclic_add_source:
  assumes "finite K" and "acyclic r" and "\<forall>k \<in> K. (k, n) \<notin> r\<^sup>*"
  shows "acyclic (r \<union> {n} \<times> K)"
  using assms
proof (induction K rule: finite_induct)
  case empty
  then show ?case by simp
next
  case (insert k K)
  then have ac: "acyclic (r \<union> {n} \<times> K)" by simp
  have "(k, n) \<notin> (r \<union> {n} \<times> K)\<^sup>*"
    using rtrancl_into_new_source [of k n r K] insert.prems(2) by auto
  with ac have "acyclic (insert (n, k) (r \<union> {n} \<times> K))" by simp
  moreover have "r \<union> {n} \<times> insert k K = insert (n, k) (r \<union> {n} \<times> K)" by auto
  ultimately show ?case by simp
qed

lemma AddEntry_Recipe_cases:
  assumes "AddEntry c (Recipe n items) = Some (response, c')"
  shows "c' = c \<or>
    (\<exists>m. n \<noteq> [] \<and> map_of c n = None \<and> items \<noteq> [] \<and> check_items c n items [] = Some (Inr m) \<and>
       response = Added \<and> c' = AList.update n (Recipe n (map snd m)) c)"
proof (cases "check_items c n items []")
  case None
  with assms show ?thesis by (simp split: if_splits)
next
  case (Some res)
  with assms show ?thesis by (cases res) (simp_all split: if_splits)
qed

lemma AddEntry_acyclic:
  assumes ac: "acyclic (edges c)" and add: "AddEntry c e = Some (response, c')"
  shows "acyclic (edges c')"
proof (cases e)
  case (Ingredient n t)
  with add ac show ?thesis
    by (auto split: if_splits simp: edges_add_ingredient)
next
  case (Recipe n items)
  from AddEntry_Recipe_cases [OF add [unfolded Recipe]] consider (same) "c' = c"
    | (added) m where "map_of c n = None" "check_items c n items [] = Some (Inr m)"
        "c' = AList.update n (Recipe n (map snd m)) c"
    by blast
  then show ?thesis
  proof cases
    case same
    with ac show ?thesis by simp
  next
    case (added m)
    note fresh = added(1) and chk = added(2) and c' = added(3)
    from check_items_Inr [OF chk] have
      m: "m = fold (\<lambda>ri. AList.update (name ri) ri) items []" and
      ok: "\<forall>ri \<in> set items. name ri \<noteq> n \<and>
            (map_of c (name ri) \<noteq> None \<longrightarrow> isReachable c (name ri) n = Some (Inr False))"
      by blast+
    have names: "name ` set (map snd m) = name ` set items"
      unfolding m by (rule stored_names)
    have "\<forall>k \<in> name ` set items. (k, n) \<notin> (edges c)\<^sup>*"
    proof
      fix k assume "k \<in> name ` set items"
      then obtain ri where ri: "ri \<in> set items" "k = name ri" by auto
      with ok have kn: "k \<noteq> n" by auto
      show "(k, n) \<notin> (edges c)\<^sup>*"
      proof
        assume "(k, n) \<in> (edges c)\<^sup>*"
        with kn have p: "(k, n) \<in> (edges c)\<^sup>+" by (auto simp: rtrancl_eq_or_trancl)
        then obtain w where "(k, w) \<in> edges c" by (meson tranclD)
        then have "map_of c k \<noteq> None" by (auto simp: edges_def)
        with ok ri have "isReachable c k n = Some (Inr False)" by auto
        from isReachable_False_no_path [OF this] p show False by simp
      qed
    qed
    with ac have "acyclic (edges c \<union> {n} \<times> name ` set items)"
      by (intro acyclic_add_source) auto
    with names c' fresh show ?thesis by (simp add: edges_add_recipe)
  qed
qed

lemma AddEntry_no_empty_key:
  assumes "map_of c [] = None" and add: "AddEntry c e = Some (response, c')"
  shows "map_of c' [] = None"
  using assms
  by (cases e) (auto split: if_splits option.splits sum.splits simp: update_conv')

lemma reachable_acyclic: "reachable c \<Longrightarrow> acyclic (edges c)"
proof (induction rule: reachable.induct)
  case initial
  show ?case by (simp add: edges_def acyclic_def)
next
  case (request c e response c')
  then show ?case by (auto intro: AddEntry_acyclic)
qed

lemma reachable_no_empty_key: "reachable c \<Longrightarrow> map_of c [] = None"
  by (induction rule: reachable.induct) (auto intro: AddEntry_no_empty_key)

subsection \<open>The loop of the summary\<close>

lemma expand_items_None:
  "expand_items c rn items recipes ings = None \<longleftrightarrow> (\<exists>ri \<in> set items. map_of c (name ri) = None)"
  by (induction items arbitrary: recipes ings) auto

lemma expand_items_Some:
  "expand_items c rn items recipes ings = Some (recipes', ings') \<Longrightarrow>
     recipes' = rev (map name items) @ recipes"
  by (induction items arbitrary: recipes ings) (auto split: if_splits)

lemma finishes_Nil: "finishes c []"
  by (simp add: finishes_def summary_loop.simps)

lemma finishes_append:
  assumes "\<And>k rest. k \<in> set ks \<Longrightarrow> finishes c rest \<Longrightarrow> finishes c (k # rest)"
    and "finishes c rest"
  shows "finishes c (ks @ rest)"
  using assms by (induction ks) auto

lemma finishes_push:
  assumes wf: "wf ((edges c)\<inverse>)"
  shows "finishes c rest \<Longrightarrow> finishes c (k # rest)"
  using wf
proof (induction k arbitrary: rest rule: wf_induct_rule)
  case (less k)
  show ?case
  proof (cases "map_of c k")
    case None
    then show ?thesis by (simp add: finishes_def summary_loop.simps)
  next
    case (Some e)
    show ?thesis
    proof (cases e)
      case (Ingredient n t)
      with Some less.prems show ?thesis
        by (simp add: finishes_def summary_loop.simps [of c "k # rest"])
    next
      case (Recipe n items)
      have sub: "finishes c (rev (map name items) @ rest)"
      proof (rule finishes_append)
        fix k' rest'
        assume "k' \<in> set (rev (map name items))" and f: "finishes c rest'"
        then have "(k', k) \<in> (edges c)\<inverse>"
          using Some Recipe by (auto simp: edges_def)
        from less.IH [OF this f] show "finishes c (k' # rest')" .
      qed (rule less.prems)
      show ?thesis
        unfolding finishes_def
      proof
        fix ings
        show "\<exists>r. summary_loop c (k # rest) ings = Some r"
        proof (cases "expand_items c k items rest ings")
          case None
          with Some Recipe show ?thesis by (simp add: summary_loop.simps [of c "k # rest"])
        next
          case (Some p)
          obtain recipes' ings' where p: "p = (recipes', ings')" by (cases p)
          with Some expand_items_Some have "recipes' = rev (map name items) @ rest" by blast
          with sub obtain r where "summary_loop c recipes' (AList.delete k ings') = Some r"
            unfolding finishes_def by blast
          with Some p \<open>map_of c k = Some e\<close> Recipe show ?thesis
            by (simp add: summary_loop.simps [of c "k # rest"])
        qed
      qed
    qed
  qed
qed

lemma summary_loop_returns:
  assumes "acyclic (edges c)"
  shows "\<exists>r. summary_loop c recipes ings = Some r"
proof -
  have "finishes c (recipes @ [])"
    by (rule finishes_append) (auto intro: finishes_push [OF wf_edges [OF assms]] finishes_Nil)
  then show ?thesis by (simp add: finishes_def)
qed

lemma summary_loop_error:
  assumes "summary_loop c recipes ings = Some r"
  shows "\<forall>e. r = Inl e \<longrightarrow> e = DanglingReference"
proof (rule summary_loop.raw_induct
    [where P = "\<lambda>c recipes ings r. \<forall>e. r = Inl e \<longrightarrow> e = DanglingReference", OF _ assms],
    goal_cases)
  case (1 loop c recipes ings r)
  then show ?case
    by (auto split: list.splits option.splits cookbookEntry.splits prod.splits)
qed

lemma all_present_recipe:
  assumes "map_of c k = Some (Recipe n items)" and "\<forall>ri \<in> set items. all_present c (name ri)"
  shows "all_present c k"
  unfolding all_present_def
proof (intro allI impI)
  fix k' assume "(k, k') \<in> (edges c)\<^sup>*"
  then show "map_of c k' \<noteq> None"
  proof (cases rule: converse_rtranclE)
    case base
    with assms(1) show ?thesis by simp
  next
    case (step y)
    with assms(1) have "y \<in> name ` set items" by (auto simp: edges_def)
    with assms(2) step(2) show ?thesis by (auto simp: all_present_def)
  qed
qed

lemma all_present_ingredient:
  assumes "map_of c k = Some (Ingredient n t)"
  shows "all_present c k"
  unfolding all_present_def
proof (intro allI impI)
  fix k' assume "(k, k') \<in> (edges c)\<^sup>*"
  then show "map_of c k' \<noteq> None"
  proof (cases rule: converse_rtranclE)
    case base
    with assms(1) show ?thesis by simp
  next
    case (step y)
    with assms(1) show ?thesis by (auto simp: edges_def)
  qed
qed

lemma summary_loop_success:
  assumes "summary_loop c recipes ings = Some r"
  shows "(\<exists>res. r = Inr res) \<longrightarrow> (\<forall>k \<in> set recipes. all_present c k)"
proof (rule summary_loop.raw_induct
    [where P = "\<lambda>c recipes ings r. (\<exists>res. r = Inr res) \<longrightarrow> (\<forall>k \<in> set recipes. all_present c k)",
      OF _ assms], goal_cases)
  case (1 loop c recipes ings r)
  show ?case
  proof
    assume ok: "\<exists>res. r = Inr res"
    show "\<forall>k \<in> set recipes. all_present c k"
    proof (cases recipes)
      case Nil
      then show ?thesis by simp
    next
      case (Cons k rest)
      show ?thesis
      proof (cases "map_of c k")
        case None
        with 1(2) Cons ok show ?thesis by auto
      next
        case (Some e)
        show ?thesis
        proof (cases e)
          case (Ingredient n t)
          with 1(2) Cons Some have "loop c rest ings = Some r" by simp
          from 1(1) [OF this] ok have "\<forall>k \<in> set rest. all_present c k" by blast
          with Cons all_present_ingredient [of c k n t] Some Ingredient show ?thesis by simp
        next
          case (Recipe n items)
          show ?thesis
          proof (cases "expand_items c k items rest ings")
            case None
            with 1(2) Cons \<open>map_of c k = Some e\<close> Recipe ok show ?thesis by auto
          next
            case (Some p)
            obtain recipes' ings' where p: "p = (recipes', ings')" by (cases p)
            with Some expand_items_Some have r': "recipes' = rev (map name items) @ rest" by blast
            from 1(2) Cons \<open>map_of c k = Some e\<close> Recipe Some p
            have "loop c recipes' (AList.delete k ings') = Some r" by simp
            from 1(1) [OF this] ok have "\<forall>k \<in> set recipes'. all_present c k" by blast
            with r' have "\<forall>ri \<in> set items. all_present c (name ri)" and "\<forall>k \<in> set rest. all_present c k"
              by auto
            with Cons all_present_recipe [of c k n items] \<open>map_of c k = Some e\<close> Recipe
            show ?thesis by simp
          qed
        qed
      qed
    qed
  qed
qed

lemma Summarize_dangling:
  assumes ac: "acyclic (edges c)" and n: "n \<noteq> []" "map_of c n = Some (Recipe n' items)"
    and path: "(n, k) \<in> (edges c)\<^sup>*" and k: "map_of c k = None"
  shows "Summarize c n = Some (Inl DanglingReference, c)"
proof -
  from summary_loop_returns [OF ac] obtain r where
    r: "summary_loop c [n] (AList.update n 1 []) = Some r" by blast
  have "\<not> all_present c n" using path k by (auto simp: all_present_def)
  with summary_loop_success [OF r] obtain e where "r = Inl e" by (cases r) auto
  with summary_loop_error [OF r] have "r = Inl DanglingReference" by simp
  with r n show ?thesis by (simp add: Summarize_def)
qed

lemma Summarize_returns:
  assumes ac: "acyclic (edges c)"
  shows "\<exists>r. Summarize c n = Some (r, c)"
proof -
  from summary_loop_returns [OF ac] obtain r where
    r: "summary_loop c [n] (AList.update n 1 []) = Some r" by blast
  then show ?thesis
    by (cases r) (auto simp: Summarize_def split: option.splits cookbookEntry.splits prod.splits)
qed

subsection \<open>The responses of \<open>POST /entry\<close>\<close>

lemma check_items_accepts:
  assumes "\<forall>ri \<in> set items. name ri \<noteq> [] \<and> name ri \<noteq> n \<and> 0 < quantity ri \<and>
             (map_of c (name ri) = None \<or> isReachable c (name ri) n = Some (Inr False))"
  shows "check_items c n items m = Some (Inr (fold (\<lambda>ri. AList.update (name ri) ri) items m))"
  using assms
proof (induction items arbitrary: m)
  case Nil
  show ?case by simp
next
  case (Cons ri items)
  from Cons.prems have
    "(if map_of c (name ri) \<noteq> None then isReachable c (name ri) n else Some (Inr False))
       = Some (Inr False)"
    by auto
  with Cons show ?case by simp
qed

lemma AddEntry_accepts:
  assumes "well_formed (Recipe n items)" and "map_of c n = None"
    and "\<forall>ri \<in> set items. map_of c (name ri) = None \<or> isReachable c (name ri) n = Some (Inr False)"
  shows "AddEntry c (Recipe n items) = Some (Added, AList.update n (Recipe n (stored items)) c)"
proof -
  have "check_items c n items [] = Some (Inr (fold (\<lambda>ri. AList.update (name ri) ri) items []))"
    using assms by (intro check_items_accepts) auto
  with assms show ?thesis by (simp add: stored_def)
qed

lemma check_items_cycle:
  assumes ac: "acyclic (edges c)"
    and "\<forall>ri \<in> set items. name ri \<noteq> [] \<and> name ri \<noteq> n \<and> 0 < quantity ri"
    and "closes_cycle c n items"
  shows "check_items c n items m = Some (Inl (Rejected CycleDetected))"
  using assms(2,3)
proof (induction items arbitrary: m)
  case Nil
  then show ?case by (simp add: closes_cycle_def)
next
  case (Cons ri items)
  show ?case
  proof (cases "map_of c (name ri) = None")
    case True
    with Cons.prems have "closes_cycle c n items" by (auto simp: closes_cycle_def)
    with Cons True show ?thesis by simp
  next
    case False
    from isReachable_returns [OF ac False] obtain b where
      b: "isReachable c (name ri) n = Some (Inr b)" by blast
    show ?thesis
    proof (cases b)
      case True
      with b False Cons.prems show ?thesis by simp
    next
      case f: False
      with b Cons.prems have "closes_cycle c n items" by (auto simp: closes_cycle_def)
      with Cons b f False show ?thesis by simp
    qed
  qed
qed

lemma AddEntry_cycle:
  assumes "acyclic (edges c)" and "well_formed (Recipe n items)" and "map_of c n = None"
    and "closes_cycle c n items"
  shows "AddEntry c (Recipe n items) = Some (Rejected CycleDetected, c)"
proof -
  have "check_items c n items [] = Some (Inl (Rejected CycleDetected))"
    using assms by (intro check_items_cycle) auto
  with assms show ?thesis by simp
qed

lemma not_closes_cycle:
  assumes "acyclic (edges c)" and "\<not> closes_cycle c n items"
  shows "\<forall>ri \<in> set items. map_of c (name ri) = None \<or> isReachable c (name ri) n = Some (Inr False)"
proof
  fix ri assume ri: "ri \<in> set items"
  show "map_of c (name ri) = None \<or> isReachable c (name ri) n = Some (Inr False)"
  proof (cases "map_of c (name ri) = None")
    case False
    from isReachable_returns [OF assms(1) False] obtain b where
      "isReachable c (name ri) n = Some (Inr b)" by blast
    with assms(2) ri False show ?thesis by (cases b) (auto simp: closes_cycle_def)
  qed simp
qed

lemma AddEntry_duplicate:
  assumes "map_of c (entry_name e) \<noteq> None"
  shows "AddEntry c e = Some (Rejected DuplicateName, c)"
  using assms by (cases e) auto

lemma cycle_scenario:
  assumes "x \<noteq> []" "y \<noteq> []" "x \<noteq> y" "0 < q" "0 < q'" "map_of c x = None" "map_of c y = None"
  shows "AddEntry c (Recipe x [RequiredItem y q])
           = Some (Added, AList.update x (Recipe x [RequiredItem y q]) c) \<and>
         AddEntry (AList.update x (Recipe x [RequiredItem y q]) c) (Recipe y [RequiredItem x q'])
           = Some (Rejected CycleDetected, AList.update x (Recipe x [RequiredItem y q]) c) \<and>
         map_of (AList.update x (Recipe x [RequiredItem y q]) c) x
           = Some (Recipe x [RequiredItem y q])"
  using assms
  by (simp add: update_conv' isReachable_def reach_loop.simps
      [of _ _ "[Recipe x [RequiredItem y q]]"])

subsection \<open>The stored required items\<close>

lemma distinct_fold_update:
  "distinct (map fst m) \<Longrightarrow> distinct (map fst (fold (\<lambda>ri. AList.update (name ri) ri) items m))"
  by (induction items arbitrary: m) (auto simp: distinct_update)

lemma map_of_fold_update:
  "map_of (fold (\<lambda>ri. AList.update (name ri) ri) items m) k =
     (case map_of (rev (map (\<lambda>ri. (name ri, ri)) items)) k of
        Some v \<Rightarrow> Some v | None \<Rightarrow> map_of m k)"
proof (induction items arbitrary: m)
  case Nil
  show ?case by simp
next
  case (Cons ri items)
  show ?case
    by (simp add: Cons.IH update_conv' map_add_def split: option.splits)
qed

lemma map_of_pairs:
  "map_of (map (\<lambda>r. (name r, quantity r)) xs) k
     = map_option quantity (map_of (map (\<lambda>r. (name r, r)) xs) k)"
  by (induction xs) auto

lemma stored_distinct: "distinct (map name (stored items))"
proof -
  let ?m = "fold (\<lambda>ri. AList.update (name ri) ri) items []"
  have k: "\<forall>p \<in> set ?m. name (snd p) = fst p"
    by (rule keyed_fold_update) simp
  then have "map name (stored items) = map fst ?m"
    by (simp add: stored_def)
  moreover have "distinct (map fst ?m)" by (rule distinct_fold_update) simp
  ultimately show ?thesis by simp
qed

lemma stored_set: "name ` set (stored items) = name ` set items"
  unfolding stored_def by (rule stored_names)

lemma stored_last:
  assumes "ri \<in> set (stored items)"
  shows "map_of (rev (map (\<lambda>r. (name r, quantity r)) items)) (name ri) = Some (quantity ri)"
proof -
  let ?m = "fold (\<lambda>ri. AList.update (name ri) ri) items []"
  from assms obtain k where mem: "(k, ri) \<in> set ?m" by (auto simp: stored_def)
  have "\<forall>p \<in> set ?m. name (snd p) = fst p"
    by (rule keyed_fold_update) simp
  with mem have k: "k = name ri" by auto
  have "distinct (map fst ?m)" by (rule distinct_fold_update) simp
  with mem have "map_of ?m k = Some ri" by simp
  then have "map_of (rev (map (\<lambda>ri. (name ri, ri)) items)) k = Some ri"
    by (simp add: map_of_fold_update split: option.splits)
  then have "map_of (map (\<lambda>r. (name r, r)) (rev items)) (name ri) = Some ri"
    using k by (simp add: rev_map)
  then have "map_of (map (\<lambda>r. (name r, quantity r)) (rev items)) (name ri) = Some (quantity ri)"
    by (simp add: map_of_pairs)
  then show ?thesis by (simp add: rev_map)
qed

lemma fold_update_fresh:
  "distinct (map name items) \<Longrightarrow> name ` set items \<inter> fst ` set m = {} \<Longrightarrow>
     fold (\<lambda>ri. AList.update (name ri) ri) items m = m @ map (\<lambda>ri. (name ri, ri)) items"
proof (induction items arbitrary: m)
  case Nil
  show ?case by simp
next
  case (Cons ri items)
  from Cons.prems have "name ri \<notin> fst ` set m" by auto
  then have u: "AList.update (name ri) ri m = m @ [(name ri, ri)]"
    by (induction m) auto
  from Cons.prems have "name ` set items \<inter> fst ` set (m @ [(name ri, ri)]) = {}" by auto
  with Cons u show ?case by simp
qed

lemma stored_unchanged: "distinct (map name items) \<Longrightarrow> stored items = items"
  by (simp add: stored_def fold_update_fresh map_idI comp_def)

subsection \<open>Faults, returns and writes of the handlers\<close>

lemma isReachable_no_fault:
  assumes "map_of c src \<noteq> None"
  shows "isReachable c src dest \<noteq> Some (Inl f)"
proof (cases "map_of c src")
  case None
  with assms show ?thesis by simp
next
  case (Some e)
  show ?thesis
  proof (cases e)
    case (Ingredient n t)
    with Some show ?thesis by (simp add: isReachable_def)
  next
    case (Recipe n items)
    show ?thesis
    proof
      assume "isReachable c src dest = Some (Inl f)"
      with Some Recipe have "reach_loop c dest [Recipe n items] = Some (Inl f)"
        by (simp add: isReachable_def)
      from reach_loop_no_fault [OF this] show False by simp
    qed
  qed
qed

lemma check_items_no_crash: "check_items c n items m \<noteq> Some (Inl (Crashed f))"
proof (induction items arbitrary: m)
  case Nil
  show ?case by simp
next
  case (Cons ri items)
  show ?case
  proof (cases "map_of c (name ri) = None")
    case True
    with Cons show ?thesis by simp
  next
    case False
    with isReachable_no_fault [OF False, of n] Cons show ?thesis
      by (auto split: option.splits sum.splits bool.splits)
  qed
qed

lemma AddEntry_no_crash: "AddEntry c e \<noteq> Some (Crashed f, c')"
proof (cases e)
  case (Ingredient n t)
  then show ?thesis by simp
next
  case (Recipe n items)
  with check_items_no_crash [of c n items "[]" f] show ?thesis
    by (auto split: option.splits sum.splits)
qed

lemma check_items_returns:
  assumes "acyclic (edges c)"
  shows "\<exists>r. check_items c n items m = Some r"
proof (induction items arbitrary: m)
  case Nil
  show ?case by simp
next
  case (Cons ri items)
  show ?case
  proof (cases "map_of c (name ri) = None")
    case True
    with Cons show ?thesis by simp
  next
    case False
    from isReachable_returns [OF assms False] obtain b where
      "isReachable c (name ri) n = Some (Inr b)" by blast
    with False Cons show ?thesis by (cases b) simp_all
  qed
qed

lemma AddEntry_returns:
  assumes "acyclic (edges c)"
  shows "\<exists>response c'. AddEntry c e = Some (response, c')"
proof (cases e)
  case (Ingredient n t)
  then show ?thesis by simp
next
  case (Recipe n items)
  from check_items_returns [OF assms, of n items "[]"] obtain r where
    "check_items c n items [] = Some r" by blast
  with Recipe show ?thesis by (cases r) simp_all
qed

lemma AddEntry_failure_unchanged:
  assumes "AddEntry c e = Some (response, c')" and "response \<noteq> Added"
  shows "c' = c"
proof (cases e)
  case (Ingredient n t)
  with assms show ?thesis by (auto split: if_splits)
next
  case (Recipe n items)
  with AddEntry_Recipe_cases [of c n items response c'] assms show ?thesis by auto
qed

lemma Summarize_unchanged:
  assumes "Summarize c n = Some (result, c')"
  shows "c' = c"
  using assms
  by (auto simp: Summarize_def split: if_splits option.splits cookbookEntry.splits sum.splits prod.splits)

subsection \<open>The example cookbooks\<close>

lemma reachable_pending: "reachable pending_cookbook"
proof -
  have 1: "AddEntry [] (Recipe ''R'' [RequiredItem ''A'' 2, RequiredItem ''B'' 3])
             = Some (Added, [(''R'', Recipe ''R'' [RequiredItem ''A'' 2, RequiredItem ''B'' 3])])"
    by code_simp
  have 2: "AddEntry [(''R'', Recipe ''R'' [RequiredItem ''A'' 2, RequiredItem ''B'' 3])]
             (Recipe ''A'' [RequiredItem ''L'' 1])
           = Some (Added, [(''R'', Recipe ''R'' [RequiredItem ''A'' 2, RequiredItem ''B'' 3]),
                           (''A'', Recipe ''A'' [RequiredItem ''L'' 1])])"
    by code_simp
  have 3: "AddEntry [(''R'', Recipe ''R'' [RequiredItem ''A'' 2, RequiredItem ''B'' 3]),
                     (''A'', Recipe ''A'' [RequiredItem ''L'' 1])]
             (Recipe ''B'' [RequiredItem ''L'' 1])
           = Some (Added, pending_cookbook)"
    by code_simp
  from reachable.request [OF reachable.request [OF reachable.request [OF reachable.initial 1] 2] 3]
  show ?thesis .
qed

lemma reachable_diamond: "reachable diamond_cookbook"
proof -
  have "AddEntry pending_cookbook (Ingredient ''L'' 4) = Some (Added, diamond_cookbook)"
    by code_simp
  from reachable.request [OF reachable_pending this] show ?thesis .
qed

lemma reachable_overcount: "reachable overcount_cookbook"
proof -
  have 1: "AddEntry [] (Ingredient ''L'' 1) = Some (Added, [(''L'', Ingredient ''L'' 1)])"
    by code_simp
  have 2: "AddEntry [(''L'', Ingredient ''L'' 1)] (Recipe ''C'' [RequiredItem ''L'' 1])
           = Some (Added, [(''L'', Ingredient ''L'' 1), (''C'', Recipe ''C'' [RequiredItem ''L'' 1])])"
    by code_simp
  have 3: "AddEntry [(''L'', Ingredient ''L'' 1), (''C'', Recipe ''C'' [RequiredItem ''L'' 1])]
             (Recipe ''A'' [RequiredItem ''C'' 1])
           = Some (Added, [(''L'', Ingredient ''L'' 1), (''C'', Recipe ''C'' [RequiredItem ''L'' 1]),
                           (''A'', Recipe ''A'' [RequiredItem ''C'' 1])])"
    by code_simp
  have 4: "AddEntry [(''L'', Ingredient ''L'' 1), (''C'', Recipe ''C'' [RequiredItem ''L'' 1]),
                     (''A'', Recipe ''A'' [RequiredItem ''C'' 1])]
             (Recipe ''R'' [RequiredItem ''C'' 1, RequiredItem ''A'' 1])
           = Some (Added, overcount_cookbook)"
    by code_simp
  from reachable.request [OF reachable.request [OF reachable.request
        [OF reachable.request [OF reachable.initial 1] 2] 3] 4]
  show ?thesis .
qed

lemma reachable_dangling: "reachable dangling_cookbook"
proof -
  have 1: "AddEntry [] (Ingredient ''L'' 2) = Some (Added, [(''L'', Ingredient ''L'' 2)])"
    by code_simp
  have 2: "AddEntry [(''L'', Ingredient ''L'' 2)]
             (Recipe ''A'' [RequiredItem ''L'' 1, RequiredItem ''Z'' 1])
           = Some (Added, [(''L'', Ingredient ''L'' 2),
                           (''A'', Recipe ''A'' [RequiredItem ''L'' 1, RequiredItem ''Z'' 1])])"
    by code_simp
  have 3: "AddEntry [(''L'', Ingredient ''L'' 2),
                     (''A'', Recipe ''A'' [RequiredItem ''L'' 1, RequiredItem ''Z'' 1])]
             (Recipe ''R'' [RequiredItem ''A'' 2])
           = Some (Added, dangling_cookbook)"
    by code_simp
  from reachable.request [OF reachable.request [OF reachable.request [OF reachable.initial 1] 2] 3]
  show ?thesis .
qed

lemma diamond_summary:
  "Summarize diamond_cookbook ''R'' = Some (Inr (Summary ''R'' 20 [(''L'', 5)]), diamond_cookbook)"
  by code_simp

section \<open>The claims\<close>

text \<open>
  C1. For an acyclic cookbook in which every name that recipe \<open>R\<close> requires, directly or
  through other recipes, is present, the summary of \<open>R\<close> reports for every ingredient
  the sum over all chains of requirements of the product of the quantities, and a cook
  time that is the sum of these quantities times the cook times.

  The handler does not compute this. In \<open>overcount_cookbook\<close>, which is reached from
  the empty cookbook by four accepted requests, \<open>R\<close> requires \<open>C\<close> and \<open>A\<close>, \<open>A\<close>
  requires \<open>C\<close>, and \<open>C\<close> requires the ingredient \<open>L\<close>, every quantity being 1. The two
  chains from \<open>R\<close> to \<open>L\<close> give the quantity 2. The handler pushes \<open>C\<close> twice before it
  expands it: the first expansion uses the counter 2 of \<open>C\<close> and deletes it, and the
  second finds no counter and falls back on the multiplier 1 of line 216, so that the
  summary reports 3.
\<close>

theorem Summarize_overcounts:
  "reachable overcount_cookbook \<and>
   Summarize overcount_cookbook ''R''
     = Some (Inr (Summary ''R'' 3 [(''L'', 3)]), overcount_cookbook) \<and>
   spec_quantity 4 overcount_cookbook ''R'' ''L'' = 2"
proof -
  have "Summarize overcount_cookbook ''R''
     = Some (Inr (Summary ''R'' 3 [(''L'', 3)]), overcount_cookbook)"
    by code_simp
  moreover have "spec_quantity 4 overcount_cookbook ''R'' ''L'' = 2"
    by code_simp
  ultimately show ?thesis using reachable_overcount by simp
qed

text \<open>
  C2. In every cookbook reached from the empty one by requests to add entries, in any
  order and with forward references, the requirement graph has no cycle.
\<close>

theorem reachable_cookbook_acyclic: "reachable c \<Longrightarrow> acyclic (edges c)"
  by (rule reachable_acyclic)

theorem reachable_cookbook_acyclic_witness:
  "reachable diamond_cookbook \<and> acyclic (edges diamond_cookbook)"
  using reachable_cookbook_acyclic [of diamond_cookbook] reachable_diamond by simp

text \<open>
  C3. For a well-formed entry, in every reachable cookbook: the request is rejected
  as a duplicate when the name is already in the cookbook; otherwise an ingredient is
  added; otherwise a recipe is rejected for a cycle when some required name is in
  the cookbook and \<open>isReachable\<close> finds the new name from it, and else is added under
  its name with the items of \<open>stored\<close>, which are the items of the request when
  their names are distinct. In particular, after recipe \<open>x\<close> requiring \<open>y\<close> has been
  added, where \<open>y\<close> is not yet in the cookbook, adding recipe \<open>y\<close> requiring \<open>x\<close> is
  rejected for a cycle and the cookbook still holds the definition of \<open>x\<close>.
\<close>

theorem AddEntry_contract:
  assumes "reachable c" and "well_formed e"
  shows
    "(map_of c (entry_name e) \<noteq> None \<longrightarrow> AddEntry c e = Some (Rejected DuplicateName, c)) \<and>
     (map_of c (entry_name e) = None \<longrightarrow>
        (\<forall>n t. e = Ingredient n t \<longrightarrow>
           AddEntry c e = Some (Added, AList.update n (Ingredient n t) c)) \<and>
        (\<forall>n items. e = Recipe n items \<longrightarrow>
           (closes_cycle c n items \<longrightarrow> AddEntry c e = Some (Rejected CycleDetected, c)) \<and>
           (\<not> closes_cycle c n items \<longrightarrow>
              AddEntry c e = Some (Added, AList.update n (Recipe n (stored items)) c)) \<and>
           (distinct (map name items) \<longrightarrow> stored items = items))) \<and>
     (x \<noteq> [] \<and> y \<noteq> [] \<and> x \<noteq> y \<and> 0 < q \<and> 0 < q' \<and> map_of c x = None \<and> map_of c y = None \<longrightarrow>
        AddEntry c (Recipe x [RequiredItem y q])
          = Some (Added, AList.update x (Recipe x [RequiredItem y q]) c) \<and>
        AddEntry (AList.update x (Recipe x [RequiredItem y q]) c) (Recipe y [RequiredItem x q'])
          = Some (Rejected CycleDetected, AList.update x (Recipe x [RequiredItem y q]) c) \<and>
        map_of (AList.update x (Recipe x [RequiredItem y q]) c) x
          = Some (Recipe x [RequiredItem y q]))"
proof (intro conjI impI allI)
  assume "map_of c (entry_name e) \<noteq> None"
  then show "AddEntry c e = Some (Rejected DuplicateName, c)" by (rule AddEntry_duplicate)
next
  fix n t
  assume "map_of c (entry_name e) = None" and "e = Ingredient n t"
  with assms(2) show "AddEntry c e = Some (Added, AList.update n (Ingredient n t) c)" by simp
next
  fix n items
  assume "map_of c (entry_name e) = None" and "e = Recipe n items" and "closes_cycle c n items"
  with assms show "AddEntry c e = Some (Rejected CycleDetected, c)"
    using AddEntry_cycle [OF reachable_acyclic, of c n items] by simp
next
  fix n items
  assume f: "map_of c (entry_name e) = None" and e: "e = Recipe n items"
    and "\<not> closes_cycle c n items"
  with assms(1) have
    "\<forall>ri \<in> set items. map_of c (name ri) = None \<or> isReachable c (name ri) n = Some (Inr False)"
    by (intro not_closes_cycle reachable_acyclic)
  with assms(2) f e show "AddEntry c e = Some (Added, AList.update n (Recipe n (stored items)) c)"
    using AddEntry_accepts [of n items c] by simp
next
  fix n items
  assume "distinct (map name items)"
  then show "stored items = items" by (rule stored_unchanged)
next
  assume "x \<noteq> [] \<and> y \<noteq> [] \<and> x \<noteq> y \<and> 0 < q \<and> 0 < q' \<and> map_of c x = None \<and> map_of c y = None"
  then have s: "x \<noteq> []" "y \<noteq> []" "x \<noteq> y" "0 < q" "0 < q'" "map_of c x = None" "map_of c y = None"
    by simp_all
  from cycle_scenario [OF s]
  show "AddEntry c (Recipe x [RequiredItem y q])
          = Some (Added, AList.update x (Recipe x [RequiredItem y q]) c)"
    and "AddEntry (AList.update x (Recipe x [RequiredItem y q]) c) (Recipe y [RequiredItem x q'])
          = Some (Rejected CycleDetected, AList.update x (Recipe x [RequiredItem y q]) c)"
    and "map_of (AList.update x (Recipe x [RequiredItem y q]) c) x
          = Some (Recipe x [RequiredItem y q])"
    by simp_all
qed

theorem AddEntry_contract_witness:
  "reachable pending_cookbook \<and>
   AddEntry pending_cookbook (Ingredient ''A'' 0) = Some (Rejected DuplicateName, pending_cookbook) \<and>
   AddEntry pending_cookbook (Ingredient ''L'' 4) = Some (Added, diamond_cookbook) \<and>
   AddEntry pending_cookbook (Recipe ''L'' [RequiredItem ''Q'' 1, RequiredItem ''R'' 1])
     = Some (Rejected CycleDetected, pending_cookbook) \<and>
   AddEntry pending_cookbook (Recipe ''S'' [RequiredItem ''A'' 1, RequiredItem ''Q'' 2])
     = Some (Added, pending_cookbook @ [(''S'', Recipe ''S'' [RequiredItem ''A'' 1, RequiredItem ''Q'' 2])]) \<and>
   AddEntry pending_cookbook (Recipe ''X'' [RequiredItem ''Y'' 1])
     = Some (Added, pending_cookbook @ [(''X'', Recipe ''X'' [RequiredItem ''Y'' 1])]) \<and>
   AddEntry (pending_cookbook @ [(''X'', Recipe ''X'' [RequiredItem ''Y'' 1])])
       (Recipe ''Y'' [RequiredItem ''X'' 1])
     = Some (Rejected CycleDetected, pending_cookbook @ [(''X'', Recipe ''X'' [RequiredItem ''Y'' 1])]) \<and>
   map_of (pending_cookbook @ [(''X'', Recipe ''X'' [RequiredItem ''Y'' 1])]) ''X''
     = Some (Recipe ''X'' [RequiredItem ''Y'' 1])"
proof -
  note r = reachable_pending
  have u1: "AList.update ''L'' (Ingredient ''L'' 4) pending_cookbook = diamond_cookbook"
    by code_simp
  have u2: "AList.update ''S'' (Recipe ''S'' (stored [RequiredItem ''A'' 1, RequiredItem ''Q'' 2]))
              pending_cookbook
            = pending_cookbook @ [(''S'', Recipe ''S'' [RequiredItem ''A'' 1, RequiredItem ''Q'' 2])]"
    by code_simp
  have u3: "AList.update ''X'' (Recipe ''X'' [RequiredItem ''Y'' 1]) pending_cookbook
            = pending_cookbook @ [(''X'', Recipe ''X'' [RequiredItem ''Y'' 1])]"
    by code_simp
  have f: "map_of pending_cookbook ''A'' \<noteq> None" "map_of pending_cookbook ''L'' = None"
    "map_of pending_cookbook ''S'' = None" "map_of pending_cookbook ''X'' = None"
    "map_of pending_cookbook ''Y'' = None"
    by (simp_all add: pending_cookbook_def)
  have cyc: "closes_cycle pending_cookbook ''L'' [RequiredItem ''Q'' 1, RequiredItem ''R'' 1]"
    by code_simp
  have nocyc: "\<not> closes_cycle pending_cookbook ''S'' [RequiredItem ''A'' 1, RequiredItem ''Q'' 2]"
    by code_simp
  have "AddEntry pending_cookbook (Ingredient ''A'' 0) = Some (Rejected DuplicateName, pending_cookbook)"
    using AddEntry_contract [OF r, of "Ingredient ''A'' 0"] f by simp
  moreover have "AddEntry pending_cookbook (Ingredient ''L'' 4) = Some (Added, diamond_cookbook)"
    using AddEntry_contract [OF r, of "Ingredient ''L'' 4"] f u1 by simp
  moreover have "AddEntry pending_cookbook (Recipe ''L'' [RequiredItem ''Q'' 1, RequiredItem ''R'' 1])
     = Some (Rejected CycleDetected, pending_cookbook)"
    using AddEntry_contract [OF r, of "Recipe ''L'' [RequiredItem ''Q'' 1, RequiredItem ''R'' 1]"] f cyc
    by simp
  moreover have "AddEntry pending_cookbook (Recipe ''S'' [RequiredItem ''A'' 1, RequiredItem ''Q'' 2])
     = Some (Added, pending_cookbook @ [(''S'', Recipe ''S'' [RequiredItem ''A'' 1, RequiredItem ''Q'' 2])])"
    using AddEntry_contract [OF r, of "Recipe ''S'' [RequiredItem ''A'' 1, RequiredItem ''Q'' 2]"] f nocyc u2
    by simp
  moreover have "AddEntry pending_cookbook (Recipe ''X'' [RequiredItem ''Y'' 1])
       = Some (Added, pending_cookbook @ [(''X'', Recipe ''X'' [RequiredItem ''Y'' 1])]) \<and>
     AddEntry (pending_cookbook @ [(''X'', Recipe ''X'' [RequiredItem ''Y'' 1])])
         (Recipe ''Y'' [RequiredItem ''X'' 1])
       = Some (Rejected CycleDetected, pending_cookbook @ [(''X'', Recipe ''X'' [RequiredItem ''Y'' 1])]) \<and>
     map_of (pending_cookbook @ [(''X'', Recipe ''X'' [RequiredItem ''Y'' 1])]) ''X''
       = Some (Recipe ''X'' [RequiredItem ''Y'' 1])"
    using AddEntry_contract [OF r, of "Ingredient ''L'' 4" "''X''" "''Y''" 1 1] f
    unfolding u3 by simp
  ultimately show ?thesis using r by simp
qed

text \<open>
  C4. Whenever the handler of \<open>POST /entry\<close> answers with a failure, the cookbook
  after the request is the cookbook before it; the handler of \<open>GET /summary\<close> never
  changes the cookbook, whatever it answers.
\<close>

theorem failure_leaves_cookbook_unchanged:
  "(AddEntry c e = Some (response, c') \<and> response \<noteq> Added \<longrightarrow> c' = c) \<and>
   (Summarize c n = Some (result, c'') \<longrightarrow> c'' = c)"
  using AddEntry_failure_unchanged [of c e response c'] Summarize_unchanged [of c n result c'']
  by blast

theorem failure_leaves_cookbook_unchanged_witness:
  "AddEntry pending_cookbook (Recipe ''L'' [RequiredItem ''B'' 1, RequiredItem ''R'' 1])
     = Some (Rejected CycleDetected, pending_cookbook) \<and>
   Rejected CycleDetected \<noteq> Added \<and>
   Summarize pending_cookbook ''R'' = Some (Inl DanglingReference, pending_cookbook)"
proof -
  have a: "AddEntry pending_cookbook (Recipe ''L'' [RequiredItem ''B'' 1, RequiredItem ''R'' 1])
     = Some (Rejected CycleDetected, pending_cookbook)"
    by code_simp
  have s: "Summarize pending_cookbook ''R'' = Some (Inl DanglingReference, pending_cookbook)"
    by code_simp
  from failure_leaves_cookbook_unchanged
    [of pending_cookbook "Recipe ''L'' [RequiredItem ''B'' 1, RequiredItem ''R'' 1]"
      "Rejected CycleDetected" pending_cookbook "''R''" "Inl DanglingReference" pending_cookbook]
    a s
  show ?thesis by simp
qed

text \<open>
  C5. In every reachable cookbook the summary of a name fails with \<open>NotFound\<close> when
  the name is absent, with \<open>NotARecipe\<close> when the name is an ingredient, and with
  \<open>DanglingReference\<close> when the name is a recipe and some name it requires, directly
  or through other recipes, is absent.
\<close>

theorem Summarize_errors:
  assumes "reachable c"
  shows
    "(map_of c n = None \<longrightarrow> Summarize c n = Some (Inl NotFound, c)) \<and>
     (\<forall>n' t. map_of c n = Some (Ingredient n' t) \<longrightarrow> Summarize c n = Some (Inl NotARecipe, c)) \<and>
     (\<forall>n' items k. map_of c n = Some (Recipe n' items) \<and> (n, k) \<in> (edges c)\<^sup>+ \<and> map_of c k = None
        \<longrightarrow> Summarize c n = Some (Inl DanglingReference, c))"
proof (intro conjI impI allI)
  assume "map_of c n = None"
  then show "Summarize c n = Some (Inl NotFound, c)" by (simp add: Summarize_def)
next
  fix n' t
  assume m: "map_of c n = Some (Ingredient n' t)"
  with reachable_no_empty_key [OF assms] have "n \<noteq> []" by auto
  with m show "Summarize c n = Some (Inl NotARecipe, c)" by (simp add: Summarize_def)
next
  fix n' items k
  assume a: "map_of c n = Some (Recipe n' items) \<and> (n, k) \<in> (edges c)\<^sup>+ \<and> map_of c k = None"
  with reachable_no_empty_key [OF assms] have "n \<noteq> []" by auto
  with a show "Summarize c n = Some (Inl DanglingReference, c)"
    using Summarize_dangling [OF reachable_acyclic [OF assms], of n n' items k]
    by (simp add: trancl_into_rtrancl)
qed

theorem Summarize_errors_witness:
  "reachable dangling_cookbook \<and>
   map_of dangling_cookbook ''Q'' = None \<and>
   Summarize dangling_cookbook ''Q'' = Some (Inl NotFound, dangling_cookbook) \<and>
   map_of dangling_cookbook ''L'' = Some (Ingredient ''L'' 2) \<and>
   Summarize dangling_cookbook ''L'' = Some (Inl NotARecipe, dangling_cookbook) \<and>
   map_of dangling_cookbook ''R'' = Some (Recipe ''R'' [RequiredItem ''A'' 2]) \<and>
   (''R'', ''Z'') \<in> (edges dangling_cookbook)\<^sup>+ \<and>
   map_of dangling_cookbook ''Z'' = None \<and>
   Summarize dangling_cookbook ''R'' = Some (Inl DanglingReference, dangling_cookbook)"
proof -
  note r = reachable_dangling
  have m: "map_of dangling_cookbook ''Q'' = None"
    "map_of dangling_cookbook ''L'' = Some (Ingredient ''L'' 2)"
    "map_of dangling_cookbook ''R'' = Some (Recipe ''R'' [RequiredItem ''A'' 2])"
    "map_of dangling_cookbook ''Z'' = None"
    by (simp_all add: dangling_cookbook_def)
  have "(''R'', ''A'') \<in> edges dangling_cookbook" and "(''A'', ''Z'') \<in> edges dangling_cookbook"
    by (simp_all add: edges_def dangling_cookbook_def)
  then have p: "(''R'', ''Z'') \<in> (edges dangling_cookbook)\<^sup>+" by (rule trancl_into_trancl2 [OF _ r_into_trancl])
  from Summarize_errors [OF r, of "''Q''"] Summarize_errors [OF r, of "''L''"]
    Summarize_errors [OF r, of "''R''"] m p r
  show ?thesis by blast
qed

text \<open>
  C6. For every cookbook, a recipe that passes the field checks and whose name is new
  is added when each of its required names is either absent from the cookbook or is
  present and does not reach the new name: an absent required name is never a reason
  to reject, and a recipe all of whose required names are absent is always added.
\<close>

theorem forward_references_accepted:
  assumes "well_formed (Recipe n items)" and "map_of c n = None"
    and "\<forall>ri \<in> set items. map_of c (name ri) = None \<or> isReachable c (name ri) n = Some (Inr False)"
  shows "AddEntry c (Recipe n items) = Some (Added, AList.update n (Recipe n (stored items)) c)"
  using assms by (rule AddEntry_accepts)

theorem forward_references_accepted_witness:
  "well_formed (Recipe ''R'' [RequiredItem ''A'' 2, RequiredItem ''B'' 3]) \<and>
   map_of ([] :: cookbook) ''R'' = None \<and> map_of ([] :: cookbook) ''A'' = None \<and>
   map_of ([] :: cookbook) ''B'' = None \<and>
   AddEntry [] (Recipe ''R'' [RequiredItem ''A'' 2, RequiredItem ''B'' 3])
     = Some (Added, [(''R'', Recipe ''R'' [RequiredItem ''A'' 2, RequiredItem ''B'' 3])]) \<and>
   well_formed (Recipe ''S'' [RequiredItem ''A'' 1, RequiredItem ''Q'' 2]) \<and>
   map_of pending_cookbook ''S'' = None \<and> map_of pending_cookbook ''Q'' = None \<and>
   isReachable pending_cookbook ''A'' ''S'' = Some (Inr False) \<and>
   AddEntry pending_cookbook (Recipe ''S'' [RequiredItem ''A'' 1, RequiredItem ''Q'' 2])
     = Some (Added,
         pending_cookbook @ [(''S'', Recipe ''S'' [RequiredItem ''A'' 1, RequiredItem ''Q'' 2])])"
proof -
  have s1: "stored [RequiredItem ''A'' 2, RequiredItem ''B'' 3]
      = [RequiredItem ''A'' 2, RequiredItem ''B'' 3]"
    by code_simp
  have s2: "AList.update ''S'' (Recipe ''S'' (stored [RequiredItem ''A'' 1, RequiredItem ''Q'' 2]))
              pending_cookbook
      = pending_cookbook @ [(''S'', Recipe ''S'' [RequiredItem ''A'' 1, RequiredItem ''Q'' 2])]"
    by code_simp
  have m: "map_of pending_cookbook ''S'' = None" "map_of pending_cookbook ''Q'' = None"
    by (simp_all add: pending_cookbook_def)
  have i: "isReachable pending_cookbook ''A'' ''S'' = Some (Inr False)"
    by code_simp
  have "AddEntry [] (Recipe ''R'' [RequiredItem ''A'' 2, RequiredItem ''B'' 3])
     = Some (Added, [(''R'', Recipe ''R'' [RequiredItem ''A'' 2, RequiredItem ''B'' 3])])"
    using forward_references_accepted
      [of "''R''" "[RequiredItem ''A'' 2, RequiredItem ''B'' 3]" "[]"] s1
    by simp
  moreover have
    "AddEntry pending_cookbook (Recipe ''S'' [RequiredItem ''A'' 1, RequiredItem ''Q'' 2])
     = Some (Added,
         pending_cookbook @ [(''S'', Recipe ''S'' [RequiredItem ''A'' 1, RequiredItem ''Q'' 2])])"
    using forward_references_accepted
      [of "''S''" "[RequiredItem ''A'' 1, RequiredItem ''Q'' 2]" pending_cookbook] m i
    unfolding s2 by simp
  ultimately show ?thesis using m i by simp
qed

text \<open>
  C7. In every cookbook whose requirement graph is acyclic, \<open>isReachable\<close> returns a
  boolean for every source in the cookbook and every destination, the loop of the
  summary returns from every stack of names and every counter map, and the summary
  handler returns for every name.
\<close>

theorem traversals_terminate:
  assumes "acyclic (edges c)"
  shows
    "(map_of c src \<noteq> None \<longrightarrow> (\<exists>b. isReachable c src dest = Some (Inr b))) \<and>
     (\<exists>r. summary_loop c recipes ingredients = Some r) \<and>
     (\<exists>result. Summarize c n = Some (result, c))"
  using isReachable_returns [OF assms, of src dest] summary_loop_returns [OF assms]
    Summarize_returns [OF assms]
  by blast

theorem traversals_terminate_witness:
  "acyclic (edges diamond_cookbook) \<and> map_of diamond_cookbook ''R'' \<noteq> None \<and>
   (\<exists>b. isReachable diamond_cookbook ''R'' ''L'' = Some (Inr b)) \<and>
   (\<exists>r. summary_loop diamond_cookbook [''R'', ''A''] [] = Some r) \<and>
   (\<exists>result. Summarize diamond_cookbook ''R'' = Some (result, diamond_cookbook))"
proof -
  have a: "acyclic (edges diamond_cookbook)" by (rule reachable_acyclic [OF reachable_diamond])
  have m: "map_of diamond_cookbook ''R'' \<noteq> None" by code_simp
  from traversals_terminate [OF a, of "''R''" "''L''" "[''R'', ''A'']" "[]" "''R''"] a m
  show ?thesis by blast
qed

text \<open>
  C8. When a recipe that passes the field checks is added, the stored list of required
  items mentions every required name of the request exactly once, with the quantity
  of the last item of the request that has this name; the conditions for the recipe to
  be added look at each item alone, so a repeated name is no reason to reject.
\<close>

theorem last_write_wins:
  assumes "well_formed (Recipe n items)" and "map_of c n = None"
    and "\<forall>ri \<in> set items. map_of c (name ri) = None \<or> isReachable c (name ri) n = Some (Inr False)"
  shows
    "\<exists>c'. AddEntry c (Recipe n items) = Some (Added, c') \<and>
       map_of c' n = Some (Recipe n (stored items)) \<and>
       distinct (map name (stored items)) \<and>
       name ` set (stored items) = name ` set items \<and>
       (\<forall>ri \<in> set (stored items).
          map_of (rev (map (\<lambda>r. (name r, quantity r)) items)) (name ri) = Some (quantity ri))"
proof -
  from AddEntry_accepts [OF assms] have
    "AddEntry c (Recipe n items) = Some (Added, AList.update n (Recipe n (stored items)) c)" .
  moreover have "map_of (AList.update n (Recipe n (stored items)) c) n = Some (Recipe n (stored items))"
    by (simp add: update_conv')
  ultimately show ?thesis
    using stored_distinct [of items] stored_set [of items] stored_last [of _ items] by blast
qed

theorem last_write_wins_witness:
  "AddEntry [] (Recipe ''X'' [RequiredItem ''Y'' 1, RequiredItem ''Z'' 2, RequiredItem ''Y'' 5])
     = Some (Added, [(''X'', Recipe ''X'' [RequiredItem ''Y'' 5, RequiredItem ''Z'' 2])]) \<and>
   stored [RequiredItem ''Y'' 1, RequiredItem ''Z'' 2, RequiredItem ''Y'' 5]
     = [RequiredItem ''Y'' 5, RequiredItem ''Z'' 2] \<and>
   distinct (map name (stored [RequiredItem ''Y'' 1, RequiredItem ''Z'' 2, RequiredItem ''Y'' 5]))"
proof -
  have s: "stored [RequiredItem ''Y'' 1, RequiredItem ''Z'' 2, RequiredItem ''Y'' 5]
     = [RequiredItem ''Y'' 5, RequiredItem ''Z'' 2]"
    by code_simp
  have a: "AddEntry [] (Recipe ''X'' [RequiredItem ''Y'' 1, RequiredItem ''Z'' 2, RequiredItem ''Y'' 5])
     = Some (Added, [(''X'', Recipe ''X'' [RequiredItem ''Y'' 5, RequiredItem ''Z'' 2])])"
    by code_simp
  have "distinct (map name (stored [RequiredItem ''Y'' 1, RequiredItem ''Z'' 2, RequiredItem ''Y'' 5]))"
    using last_write_wins
      [of "''X''" "[RequiredItem ''Y'' 1, RequiredItem ''Z'' 2, RequiredItem ''Y'' 5]" "[]"]
    by simp
  with s a show ?thesis by simp
qed

text \<open>
  C9. \<open>parse_handwriting\<close> turns separators into single spaces, removes what is not
  a letter, and returns the words in title case separated by single spaces, or nothing
  when no letter is left.

  The separators are collapsed before the other characters are removed (lines 50 and
  53), so two spaces that only a removed character separates both stay: the words of
  the result for \<open>a 1 b\<close> are separated by two spaces.
\<close>

theorem parse_handwriting_double_space: "parse_handwriting ''a 1 b'' = Some ''A  B''"
  by code_simp

text \<open>
  C10. \<open>isReachable\<close> faults when its source is not in the cookbook. The handler of
  \<open>POST /entry\<close> only calls it for names in the cookbook: for every cookbook the
  handler never answers with the fault, and in every reachable cookbook
  \<open>isReachable\<close> returns a boolean for every source in the cookbook and the handler
  returns a response.
\<close>

theorem isReachable_guarded:
  "(map_of c src = None \<longrightarrow> isReachable c src dest = Some (Inl TypeError)) \<and>
   AddEntry c e \<noteq> Some (Crashed f, c') \<and>
   (reachable c \<longrightarrow>
      (map_of c src \<noteq> None \<longrightarrow> (\<exists>b. isReachable c src dest = Some (Inr b))) \<and>
      (\<exists>response c''. AddEntry c e = Some (response, c'')))"
  using AddEntry_no_crash [of c e f c'] AddEntry_returns [OF reachable_acyclic, of c e]
    isReachable_returns [OF reachable_acyclic, of c src dest]
  by (simp add: isReachable_def)

theorem isReachable_guarded_witness:
  "map_of pending_cookbook ''L'' = None \<and>
   isReachable pending_cookbook ''L'' ''R'' = Some (Inl TypeError) \<and>
   reachable pending_cookbook \<and>
   map_of pending_cookbook ''R'' \<noteq> None \<and>
   (\<exists>b. isReachable pending_cookbook ''R'' ''S'' = Some (Inr b)) \<and>
   AddEntry pending_cookbook (Recipe ''S'' [RequiredItem ''L'' 1])
     \<noteq> Some (Crashed TypeError, pending_cookbook) \<and>
   (\<exists>response c''. AddEntry pending_cookbook (Recipe ''S'' [RequiredItem ''L'' 1])
       = Some (response, c''))"
proof -
  have m: "map_of pending_cookbook ''L'' = None" "map_of pending_cookbook ''R'' \<noteq> None"
    by (simp_all add: pending_cookbook_def)
  from isReachable_guarded
    [of pending_cookbook "''L''" "''R''" "Recipe ''S'' [RequiredItem ''L'' 1]" TypeError
      pending_cookbook]
    isReachable_guarded
    [of pending_cookbook "''R''" "''S''" "Recipe ''S'' [RequiredItem ''L'' 1]" TypeError
      pending_cookbook]
    m reachable_pending
  show ?thesis by blast
qed

end
